theory Spec2Isabelle
  imports Main "HOL-Library.Word"
begin

section \<open>Triple\_Hash: the bucket index\<close>

text \<open>
  The keys arrive as \<open>int64_t\<close> and are converted to \<open>uint64_t\<close> at the call of
  \<open>Triple_Hash::get\<close>. The conversion keeps the 64 bits, so a key is a 64-bit word
  throughout; \<open>*\<close> on words wraps modulo \<open>2 ^ 64\<close> and \<open>mod\<close> is the unsigned
  remainder, as for \<open>uint64_t\<close>.
\<close>

type_synonym u64 = "64 word"

definition MAX_SIZE :: u64 where "MAX_SIZE = 1000000"

definition PRIME1 :: u64 where "PRIME1 = 2654435761"
definition PRIME2 :: u64 where "PRIME2 = 2246822519"
definition PRIME3 :: u64 where "PRIME3 = 3266489917"
definition MOD1 :: u64 where "MOD1 = 1000000007"
definition MOD2 :: u64 where "MOD2 = 1000000009"
definition MOD3 :: u64 where "MOD3 = MAX_SIZE"

definition Triple_Hash_get :: "u64 \<Rightarrow> u64" where
  "Triple_Hash_get ident =
     (let hash1 = (ident * PRIME1) mod MOD1;
          hash2 = (hash1 * PRIME2) mod MOD2;
          hash3 = (hash2 * PRIME3) mod MOD3
      in hash3)"


section \<open>Nodes, the free store and the table\<close>

text \<open>
  A \<open>Node *\<close> is an address or null (\<open>None\<close>). The free store maps the address of every
  live node to its fields; \<open>delete\<close> removes the address. Reading a field through a null
  pointer or through a pointer to no live node has no defined result in C++: the model
  records it as a fault instead of inventing a value.

  The table is \<open>std::array<std::atomic<Node *>, MAX_SIZE>\<close>. It is indexed by the value
  of \<open>Triple_Hash::get\<close> only, which is below \<open>MAX_SIZE\<close>, so the array is modelled as
  a function on indices.
\<close>

type_synonym addr = nat

record 'a Node =
  node_id :: u64
  data :: 'a
  node_next :: "addr option"

datatype fault = NullDeref | Dangling

record 'a LookTable =
  heap :: "addr \<Rightarrow> 'a Node option"
  table :: "nat \<Rightarrow> addr option"
  sizeCounter :: u64

text \<open>
  A freshly constructed table: every bucket head null (the value-initialisation of
  \<open>std::atomic<Node *>\<close>), the counter \<open>0\<close>, no node.
\<close>

definition LookTable_init :: "'a LookTable" where
  "LookTable_init = \<lparr>heap = (\<lambda>_. None), table = (\<lambda>_. None), sizeCounter = 0\<rparr>"

definition deref :: "'a LookTable \<Rightarrow> addr option \<Rightarrow> fault + 'a Node" where
  "deref s p =
     (case p of
        None \<Rightarrow> Inl NullDeref
      | Some a \<Rightarrow> (case heap s a of None \<Rightarrow> Inl Dangling | Some n \<Rightarrow> Inr n))"

text \<open>
  \<open>atomic.compare_exchange_weak(expected, desired)\<close> with one thread running: when the
  atomic holds \<open>expected\<close> it is set to \<open>desired\<close> and the call yields true; otherwise
  \<open>expected\<close> is overwritten with the value held and the call yields false. The result is
  (success, value of the atomic afterwards, value of \<open>expected\<close> afterwards). The
  spurious failure that the weak form allows is not modelled.
\<close>

definition compare_exchange ::
  "addr option \<Rightarrow> addr option \<Rightarrow> addr option \<Rightarrow> bool \<times> addr option \<times> addr option" where
  "compare_exchange cur expected desired =
     (if cur = expected then (True, desired, expected) else (False, cur, cur))"


section \<open>LookTable::insert\<close>

definition set_next :: "addr \<Rightarrow> addr option \<Rightarrow> 'a LookTable \<Rightarrow> 'a LookTable" where
  "set_next a nx s =
     s\<lparr>heap := (heap s)(a := map_option (\<lambda>n. n\<lparr>node_next := nx\<rparr>) (heap s a))\<rparr>"

function insert_loop :: "nat \<Rightarrow> addr \<Rightarrow> addr option \<Rightarrow> 'a LookTable \<Rightarrow> 'a LookTable" where
  "insert_loop hash newNode oldHead s =
     (let (ok, head', oldHead') = compare_exchange (table s hash) oldHead (Some newNode) in
      if ok then s\<lparr>table := (table s)(hash := head')\<rparr>
      else insert_loop hash newNode oldHead' (set_next newNode oldHead' s))"
  by pat_completeness auto
termination
  by (relation "measure (\<lambda>(hash, newNode, oldHead, s). if table s hash = oldHead then 0 else 1)")
     (auto simp: compare_exchange_def set_next_def split: if_splits)

text \<open>
  \<open>newNode\<close> is the address \<open>std::make_unique<Node>\<close> returns; the allocator is outside
  the program, so the address is an argument.
\<close>

definition LookTable_insert :: "addr \<Rightarrow> u64 \<Rightarrow> 'a \<Rightarrow> 'a LookTable \<Rightarrow> 'a LookTable" where
  "LookTable_insert newNode ident t s =
     (let hash = unat (Triple_Hash_get ident);
          s1 = s\<lparr>heap := (heap s)(newNode \<mapsto> \<lparr>node_id = ident, data = t, node_next = None\<rparr>)\<rparr>;
          oldHead = table s1 hash;
          s2 = set_next newNode oldHead s1;
          s3 = insert_loop hash newNode oldHead s2
      in s3\<lparr>sizeCounter := sizeCounter s3 + 1\<rparr>)"


section \<open>LookTable::find\<close>

partial_function (option) find_loop ::
  "u64 \<Rightarrow> addr option \<Rightarrow> 'a LookTable \<Rightarrow> (fault + addr option) option" where
  "find_loop ident currentNode s =
     (case currentNode of
        None \<Rightarrow> Some (Inr None)
      | Some a \<Rightarrow>
          (case deref s currentNode of
             Inl e \<Rightarrow> Some (Inl e)
           | Inr n \<Rightarrow>
               if node_id n = ident then Some (Inr (Some a))
               else find_loop ident (node_next n) s))"

text \<open>
  The \<open>T *\<close> that \<open>find\<close> returns points into the node found, so it is the node's address.
  The table after the call is part of the result.
\<close>

definition LookTable_find ::
  "u64 \<Rightarrow> 'a LookTable \<Rightarrow> (fault + addr option \<times> 'a LookTable) option" where
  "LookTable_find ident s =
     (let hash = unat (Triple_Hash_get ident);
          currentNode = table s hash
      in map_option (map_sum (\<lambda>e. e) (\<lambda>r. (r, s))) (find_loop ident currentNode s))"

text \<open>Reading the payload through the pointer that \<open>find\<close> returned.\<close>

definition payload :: "'a LookTable \<Rightarrow> addr \<Rightarrow> 'a option" where
  "payload s a = map_option data (heap s a)"


section \<open>LookTable::erase and LookTable::size\<close>

partial_function (option) erase_loop ::
  "nat \<Rightarrow> u64 \<Rightarrow> addr option \<Rightarrow> 'a LookTable \<Rightarrow> (fault + 'a LookTable) option" where
  "erase_loop hash ident oldHead s =
     (case oldHead of
        None \<Rightarrow> Some (Inr (s\<lparr>sizeCounter := sizeCounter s - 1\<rparr>))
      | Some a \<Rightarrow>
          (case deref s oldHead of
             Inl e \<Rightarrow> Some (Inl e)
           | Inr n \<Rightarrow>
               if node_id n = ident then
                 (let (ok, head', oldHead') =
                        compare_exchange (table s hash) oldHead (node_next n) in
                  if ok then
                    Some (Inr (s\<lparr>table := (table s)(hash := head'),
                                 heap := (heap s)(a := None)\<rparr>))
                  else
                    (case deref s oldHead' of
                       Inl e \<Rightarrow> Some (Inl e)
                     | Inr m \<Rightarrow> erase_loop hash ident (node_next m) s))
               else erase_loop hash ident (node_next n) s))"

definition LookTable_erase :: "u64 \<Rightarrow> 'a LookTable \<Rightarrow> (fault + 'a LookTable) option" where
  "LookTable_erase ident s =
     (let hash = unat (Triple_Hash_get ident);
          oldHead = table s hash
      in erase_loop hash ident oldHead s)"

definition LookTable_size :: "'a LookTable \<Rightarrow> u64" where
  "LookTable_size s = sizeCounter s"


section \<open>Reading through the returned pointer, and sequencing calls\<close>

text \<open>
  The tests read the result of \<open>find\<close> as \<open>*found.value()\<close> and \<open>has_value()\<close>:
  \<open>find_value\<close> is \<open>find\<close> followed by the read of the payload through the pointer.
\<close>

definition find_value :: "u64 \<Rightarrow> 'a LookTable \<Rightarrow> (fault + 'a option) option" where
  "find_value ident s =
     (case LookTable_find ident s of
        None \<Rightarrow> None
      | Some (Inl e) \<Rightarrow> Some (Inl e)
      | Some (Inr (None, s')) \<Rightarrow> Some (Inr None)
      | Some (Inr (Some a, s')) \<Rightarrow>
          (case payload s' a of None \<Rightarrow> Some (Inl Dangling) | Some p \<Rightarrow> Some (Inr (Some p))))"

text \<open>
  A call that does not return (\<open>None\<close>) or faults has no next statement; otherwise the next
  statement runs on the table the call left.
\<close>

definition and_then ::
  "(fault + 's) option \<Rightarrow> ('s \<Rightarrow> (fault + 'b) option) \<Rightarrow> (fault + 'b) option" where
  "and_then r f = (case r of None \<Rightarrow> None | Some (Inl e) \<Rightarrow> Some (Inl e) | Some (Inr s) \<Rightarrow> f s)"

definition size_after :: "(fault + 'a LookTable) option \<Rightarrow> (fault + u64) option" where
  "size_after r = and_then r (\<lambda>s. Some (Inr (LookTable_size s)))"

definition find_after :: "u64 \<Rightarrow> (fault + 'a LookTable) option \<Rightarrow> (fault + 'a option) option" where
  "find_after ident r = and_then r (find_value ident)"


section \<open>Chains\<close>

text \<open>
  \<open>chain s p as\<close>: following \<open>next\<close> from the pointer \<open>p\<close> visits exactly the live
  nodes at the addresses \<open>as\<close>, in this order, and then reaches null.
\<close>

definition key_at :: "'a LookTable \<Rightarrow> addr \<Rightarrow> u64 option" where
  "key_at s a = map_option node_id (heap s a)"

fun chain :: "'a LookTable \<Rightarrow> addr option \<Rightarrow> addr list \<Rightarrow> bool" where
  "chain s p [] = (p = None)"
| "chain s p (a # as) =
     (p = Some a \<and> (case heap s a of None \<Rightarrow> False | Some n \<Rightarrow> chain s (node_next n) as))"

definition bucket :: "u64 \<Rightarrow> nat" where
  "bucket ident = unat (Triple_Hash_get ident)"


section \<open>The states of the test cases\<close>

text \<open>
  \<open>SECTION("Erase")\<close> inserts \<open>(100, 42)\<close> and \<open>(200, 43)\<close> into a new
  \<open>LookTable<int>\<close>; \<open>SECTION("Insert and find")\<close> inserts \<open>(123456, 42)\<close>. The
  performance test inserts the keys \<open>0, 1, ..., 4999999\<close>, among them \<open>7\<close>, \<open>201856\<close>
  and \<open>403705\<close>, which share a bucket. The nodes get the addresses \<open>16, 32, 48\<close>.
\<close>

definition erase_test :: "int LookTable" where
  "erase_test = LookTable_insert 32 200 43 (LookTable_insert 16 100 42 LookTable_init)"

definition insert_and_find_test :: "int LookTable" where
  "insert_and_find_test = LookTable_insert 16 123456 42 LookTable_init"

definition shared_bucket2 :: "int LookTable" where
  "shared_bucket2 = LookTable_insert 32 201856 201856 (LookTable_insert 16 7 7 LookTable_init)"

definition shared_bucket3 :: "int LookTable" where
  "shared_bucket3 = LookTable_insert 48 403705 403705 shared_bucket2"


section \<open>The hash\<close>

lemmas hash_consts = MAX_SIZE_def PRIME1_def PRIME2_def PRIME3_def MOD1_def MOD2_def MOD3_def

lemma bucket_values:
  "bucket 100 = 245106" "bucket 200 = 80959" "bucket 123456 = 705576"
  "bucket 7 = 83531" "bucket 201856 = 83531" "bucket 403705 = 83531"
  by (simp_all add: bucket_def Triple_Hash_get_def hash_consts)


section \<open>One step of each loop\<close>

lemma LookTable_insert_eq:
  "LookTable_insert a k t s =
     s\<lparr>heap := (heap s)(a \<mapsto> \<lparr>node_id = k, data = t, node_next = table s (bucket k)\<rparr>),
       table := (table s)(bucket k := Some a),
       sizeCounter := sizeCounter s + 1\<rparr>"
  by (simp add: LookTable_insert_def Let_def set_next_def compare_exchange_def bucket_def)

lemma find_loop_unfold:
  "find_loop k (Some a) s =
     (case heap s a of
        None \<Rightarrow> Some (Inl Dangling)
      | Some n \<Rightarrow> if node_id n = k then Some (Inr (Some a)) else find_loop k (node_next n) s)"
  by (subst find_loop.simps) (simp add: deref_def split: option.splits)

lemma erase_loop_unfold:
  "erase_loop h k (Some a) s =
     (case heap s a of
        None \<Rightarrow> Some (Inl Dangling)
      | Some n \<Rightarrow>
          if node_id n = k then
            (if table s h = Some a then
               Some (Inr (s\<lparr>table := (table s)(h := node_next n), heap := (heap s)(a := None)\<rparr>))
             else
               (case deref s (table s h) of
                  Inl e \<Rightarrow> Some (Inl e)
                | Inr m \<Rightarrow> erase_loop h k (node_next m) s))
          else erase_loop h k (node_next n) s)"
  by (subst erase_loop.simps) (simp add: deref_def compare_exchange_def split: option.splits)

lemma find_loop_None: "find_loop k None s = Some (Inr None)"
  by (subst find_loop.simps) simp

lemma find_loop_Some:
  "heap s a = Some n \<Longrightarrow>
   find_loop k (Some a) s =
     (if node_id n = k then Some (Inr (Some a)) else find_loop k (node_next n) s)"
  by (subst find_loop.simps) (simp add: deref_def)

lemma find_loop_Dangling: "heap s a = None \<Longrightarrow> find_loop k (Some a) s = Some (Inl Dangling)"
  by (subst find_loop.simps) (simp add: deref_def)

lemma find_loop_chain:
  "chain s p as \<Longrightarrow> find_loop k p s = Some (Inr (List.find (\<lambda>a. key_at s a = Some k) as))"
proof (induction as arbitrary: p)
  case Nil
  then show ?case by (simp add: find_loop_None)
next
  case (Cons a as)
  from Cons.prems obtain n where p: "p = Some a" and n: "heap s a = Some n"
    and rest: "chain s (node_next n) as"
    by (auto split: option.splits)
  show ?case
    using Cons.IH [OF rest] by (simp add: p find_loop_Some [OF n] key_at_def n)
qed

lemma erase_loop_None: "erase_loop h k None s = Some (Inr (s\<lparr>sizeCounter := sizeCounter s - 1\<rparr>))"
  by (subst erase_loop.simps) simp

lemma erase_loop_skip:
  "heap s a = Some n \<Longrightarrow> node_id n \<noteq> k \<Longrightarrow>
   erase_loop h k (Some a) s = erase_loop h k (node_next n) s"
  by (subst erase_loop.simps) (simp add: deref_def)

lemma erase_loop_head:
  "heap s a = Some n \<Longrightarrow> node_id n = k \<Longrightarrow> table s h = Some a \<Longrightarrow>
   erase_loop h k (Some a) s =
     Some (Inr (s\<lparr>table := (table s)(h := node_next n), heap := (heap s)(a := None)\<rparr>))"
  by (subst erase_loop.simps) (simp add: deref_def compare_exchange_def)

lemma erase_loop_retry:
  "heap s a = Some n \<Longrightarrow> node_id n = k \<Longrightarrow> table s h = Some b \<Longrightarrow> b \<noteq> a \<Longrightarrow>
   heap s b = Some m \<Longrightarrow>
   erase_loop h k (Some a) s = erase_loop h k (node_next m) s"
  by (subst erase_loop.simps) (simp add: deref_def compare_exchange_def)

lemma erase_loop_absent:
  "chain s p as \<Longrightarrow> \<forall>a \<in> set as. key_at s a \<noteq> Some k \<Longrightarrow>
   erase_loop h k p s = Some (Inr (s\<lparr>sizeCounter := sizeCounter s - 1\<rparr>))"
proof (induction as arbitrary: p)
  case Nil
  then show ?case by (simp add: erase_loop_None)
next
  case (Cons a as)
  from Cons.prems(1) obtain n where p: "p = Some a" and n: "heap s a = Some n"
    and rest: "chain s (node_next n) as"
    by (auto split: option.splits)
  from Cons.prems(2) n have "node_id n \<noteq> k" by (simp add: key_at_def)
  then show ?case
    using Cons.IH [OF rest] Cons.prems(2) by (simp add: p erase_loop_skip [OF n])
qed

lemma chain_prefix_step:
  "chain s p (pre @ b # post) \<Longrightarrow> c \<in> set pre \<Longrightarrow>
   \<exists>n. heap s c = Some n \<and> node_next n \<in> Some ` set (pre @ [b])"
proof (induction pre arbitrary: p)
  case Nil
  then show ?case by simp
next
  case (Cons a pre)
  from Cons.prems(1) obtain n where n: "heap s a = Some n"
    and rest: "chain s (node_next n) (pre @ b # post)"
    by (auto split: option.splits)
  show ?case
  proof (cases "c = a")
    case True
    from rest have "node_next n \<in> Some ` set (pre @ [b])"
      by (cases pre) auto
    with n True show ?thesis by auto
  next
    case False
    with Cons.prems(2) have "c \<in> set pre" by simp
    from Cons.IH [OF rest this] show ?thesis by auto
  qed
qed

lemma erase_loop_spin:
  assumes head: "table s h = Some a0" and n0: "heap s a0 = Some n0"
    and key0: "node_id n0 \<noteq> k"
    and rest: "chain s (node_next n0) (pre @ b # post)"
    and pre: "\<forall>c \<in> set pre. key_at s c \<noteq> Some k"
    and b: "key_at s b = Some k"
    and cur: "cur \<in> Some ` set (pre @ [b])"
  shows "erase_loop h k cur s = None"
proof -
  define spinning where
    "spinning = (\<lambda>h' k' cur' (s' :: 'a LookTable).
       h' = h \<and> k' = k \<and> s' = s \<and> cur' \<in> Some ` set (pre @ [b]))"
  have first: "node_next n0 \<in> Some ` set (pre @ [b])"
    using rest by (cases pre) auto
  have never: "\<not> spinning h' k' cur' s'" if "erase_loop h' k' cur' s' = Some y" for h' k' cur' s' y
  proof (rule erase_loop.raw_induct
      [where P = "\<lambda>h' k' cur' s' y. \<not> spinning h' k' cur' s'", OF _ that], goal_cases)
    case (1 f h' k' cur' s' y)
    show ?case
    proof
      assume "spinning h' k' cur' s'"
      then have eqs: "h' = h" "k' = k" "s' = s" and "cur' \<in> Some ` set (pre @ [b])"
        by (simp_all add: spinning_def)
      then obtain c where c: "cur' = Some c" "c \<in> set pre \<or> c = b" by auto
      from c(2) show False
      proof
        assume cp: "c \<in> set pre"
        from chain_prefix_step [OF rest cp] obtain n
          where n: "heap s c = Some n" "node_next n \<in> Some ` set (pre @ [b])" by auto
        from pre cp n have "node_id n \<noteq> k" by (auto simp: key_at_def)
        with 1(2) eqs c n have "f h k (node_next n) s = Some y"
          by (simp add: deref_def)
        from 1(1) [OF this] n show False by (simp add: spinning_def)
      next
        assume cb: "c = b"
        from b obtain n where n: "heap s b = Some n" "node_id n = k"
          by (auto simp: key_at_def)
        from n n0 key0 have "a0 \<noteq> b" by auto
        with 1(2) eqs c cb n head n0 have "f h k (node_next n0) s = Some y"
          by (simp add: deref_def compare_exchange_def)
        from 1(1) [OF this] first show False by (simp add: spinning_def)
      qed
    qed
  qed
  show ?thesis
  proof (cases "erase_loop h k cur s")
    case None
    then show ?thesis .
  next
    case (Some y)
    from never [OF Some] cur show ?thesis by (simp add: spinning_def)
  qed
qed

lemma erase_loop_mid_chain:
  assumes head: "table s h = Some a0" and n0: "heap s a0 = Some n0"
    and key0: "node_id n0 \<noteq> k"
    and rest: "chain s (node_next n0) (pre @ b # post)"
    and pre: "\<forall>c \<in> set pre. key_at s c \<noteq> Some k"
    and b: "key_at s b = Some k"
  shows "erase_loop h k (Some a0) s = None"
proof -
  have "node_next n0 \<in> Some ` set (pre @ [b])"
    using rest by (cases pre) auto
  from erase_loop_spin [OF head n0 key0 rest pre b this]
  show ?thesis by (simp add: erase_loop_skip [OF n0 key0])
qed

section \<open>The index is in range\<close>

lemma stage_bounds:
  "unat ((x :: u64) mod MOD1) < 1000000007" "unat ((x :: u64) mod MOD2) < 1000000009"
  "unat ((x :: u64) mod MOD3) < 1000000"
  by (simp_all add: unat_mod hash_consts)

text \<open>
  C8. \<open>Triple_Hash::get\<close> is a function of the key alone, defined on every 64-bit key,
  and its value is below \<open>MAX_SIZE = 1000000\<close>. It is the value of three stages: the key
  times \<open>2654435761\<close> (a \<open>uint64_t\<close> product, so reduced modulo \<open>2 ^ 64\<close>) modulo
  \<open>10^9 + 7\<close>; that times \<open>2246822519\<close> modulo \<open>10^9 + 9\<close>; that times
  \<open>3266489917\<close> modulo \<open>1000000\<close>. The second and third products never reach
  \<open>2 ^ 64\<close>.
\<close>

theorem Triple_Hash_get_index:
  "Triple_Hash_get k < MAX_SIZE \<and>
   unat (Triple_Hash_get k) < 1000000 \<and>
   unat (Triple_Hash_get k) =
     ((unat k * 2654435761 mod 2 ^ 64) mod 1000000007 * 2246822519 mod 1000000009
        * 3266489917) mod 1000000"
proof -
  define h1 where "h1 = (k * PRIME1) mod MOD1"
  define h2 where "h2 = (h1 * PRIME2) mod MOD2"
  have get: "Triple_Hash_get k = (h2 * PRIME3) mod MOD3"
    by (simp add: Triple_Hash_get_def h1_def h2_def)
  have u1: "unat h1 = (unat k * 2654435761 mod 2 ^ 64) mod 1000000007"
    by (simp add: h1_def unat_mod unat_word_ariths hash_consts)
  have b1: "unat h1 < 1000000007" unfolding h1_def by (rule stage_bounds)
  have "unat h1 * 2246822519 < 2 ^ 64" using b1 by simp
  then have m2: "unat (h1 * PRIME2) = unat h1 * 2246822519"
    by (simp add: unat_word_ariths hash_consts)
  have u2: "unat h2 = unat h1 * 2246822519 mod 1000000009"
    by (simp add: h2_def unat_mod m2) (simp add: hash_consts)
  have b2: "unat h2 < 1000000009" unfolding h2_def by (rule stage_bounds)
  have "unat h2 * 3266489917 < 2 ^ 64" using b2 by simp
  then have m3: "unat (h2 * PRIME3) = unat h2 * 3266489917"
    by (simp add: unat_word_ariths hash_consts)
  have u3: "unat (Triple_Hash_get k) = unat h2 * 3266489917 mod 1000000"
    by (simp add: get unat_mod m3) (simp add: hash_consts)
  have lt: "Triple_Hash_get k < MAX_SIZE"
    unfolding get MOD3_def by (rule word_mod_less_divisor) (simp add: MAX_SIZE_def)
  have "unat (Triple_Hash_get k) < 1000000" unfolding get by (rule stage_bounds)
  with lt u3 u2 u1 show ?thesis by simp
qed


section \<open>find\<close>

lemma LookTable_find_eq:
  "LookTable_find k s = map_option (map_sum (\<lambda>e. e) (\<lambda>r. (r, s))) (find_loop k (table s (bucket k)) s)"
  by (simp add: LookTable_find_def bucket_def)

text \<open>
  C9. \<open>find\<close> never mutates the table: whenever \<open>find(k)\<close> returns, the table it leaves
  is the table it was called on, with the same nodes (keys, payloads and next links), the
  same bucket heads and the same counter.
\<close>

theorem find_leaves_table:
  "LookTable_find k s = Some (Inr (r, s')) \<Longrightarrow>
   s' = s \<and> heap s' = heap s \<and> table s' = table s \<and> sizeCounter s' = sizeCounter s"
proof -
  assume ret: "LookTable_find k s = Some (Inr (r, s'))"
  show ?thesis
  proof (cases "find_loop k (table s (bucket k)) s")
    case None
    with ret show ?thesis by (simp add: LookTable_find_eq)
  next
    case (Some x)
    with ret have "map_sum (\<lambda>e. e) (\<lambda>r. (r, s)) x = Inr (r, s')"
      by (simp add: LookTable_find_eq)
    then have "s' = s" by (cases x) simp_all
    then show ?thesis by simp
  qed
qed

theorem find_leaves_table_witness:
  "LookTable_find 200 erase_test = Some (Inr (Some 32, erase_test)) \<and>
   heap erase_test = heap erase_test \<and> table erase_test = table erase_test \<and>
   sizeCounter erase_test = sizeCounter erase_test"
proof -
  have ret: "LookTable_find 200 erase_test = Some (Inr (Some 32, erase_test))"
    by (simp add: LookTable_find_eq erase_test_def LookTable_insert_eq LookTable_init_def
        bucket_values find_loop_unfold)
  from find_leaves_table [OF ret] ret show ?thesis by simp
qed

lemma insert_other_then_find:
  assumes "k1 \<noteq> k2" and "a1 \<noteq> a2"
  shows "find_value k1 (LookTable_insert a2 k2 p2 (LookTable_insert a1 k1 p1 s)) = Some (Inr (Some p1))"
proof (cases "bucket k2 = bucket k1")
  case True
  with assms show ?thesis
    by (simp add: find_value_def LookTable_find_eq LookTable_insert_eq find_loop_unfold payload_def)
next
  case False
  with assms show ?thesis
    by (simp add: find_value_def LookTable_find_eq LookTable_insert_eq find_loop_unfold payload_def)
qed

lemma insert_then_find:
  "find_value k (LookTable_insert a k p s) = Some (Inr (Some p))"
  by (simp add: find_value_def LookTable_find_eq LookTable_insert_eq find_loop_unfold payload_def)

text \<open>
  C6. Two distinct keys \<open>k1\<close>, \<open>k2\<close> are inserted with payloads \<open>p1\<close>, \<open>p2\<close>
  into any table, in either order; the two nodes are at different addresses. Then
  \<open>find(k1)\<close> yields \<open>p1\<close> and \<open>find(k2)\<close> yields \<open>p2\<close>.
\<close>

theorem insert_two_find_both:
  assumes "k1 \<noteq> k2" and "a1 \<noteq> a2"
  shows "find_value k1 (LookTable_insert a2 k2 p2 (LookTable_insert a1 k1 p1 s)) = Some (Inr (Some p1)) \<and>
         find_value k2 (LookTable_insert a2 k2 p2 (LookTable_insert a1 k1 p1 s)) = Some (Inr (Some p2)) \<and>
         find_value k1 (LookTable_insert a2 k1 p1 (LookTable_insert a1 k2 p2 s)) = Some (Inr (Some p1)) \<and>
         find_value k2 (LookTable_insert a2 k1 p1 (LookTable_insert a1 k2 p2 s)) = Some (Inr (Some p2))"
  using insert_other_then_find [OF assms, of p2 p1 s]
    insert_other_then_find [OF assms(1) [symmetric] assms(2), of p1 p2 s]
  by (simp add: insert_then_find)

theorem insert_two_find_both_witness:
  "(100 :: u64) \<noteq> 200 \<and> (16 :: addr) \<noteq> 32 \<and>
   find_value 100 erase_test = Some (Inr (Some 42)) \<and>
   find_value 200 erase_test = Some (Inr (Some 43)) \<and>
   find_value 100 (LookTable_insert 32 100 42 (LookTable_insert 16 200 (43 :: int) LookTable_init))
     = Some (Inr (Some 42)) \<and>
   find_value 200 (LookTable_insert 32 100 42 (LookTable_insert 16 200 (43 :: int) LookTable_init))
     = Some (Inr (Some 43))"
  using insert_two_find_both [of 100 200 16 32 43 42 "LookTable_init :: int LookTable"]
  by (simp add: erase_test_def)

section \<open>erase\<close>

text \<open>
  What \<open>erase(k)\<close> does, by the place of the first node with key \<open>k\<close> in the chain of
  its bucket: no such node, the node is the bucket head, the node is further down.
\<close>

lemma LookTable_erase_eq: "LookTable_erase k s = erase_loop (bucket k) k (table s (bucket k)) s"
  by (simp add: LookTable_erase_def bucket_def Let_def)

lemma LookTable_erase_absent:
  "chain s (table s (bucket k)) as \<Longrightarrow> \<forall>a \<in> set as. key_at s a \<noteq> Some k \<Longrightarrow>
   LookTable_erase k s = Some (Inr (s\<lparr>sizeCounter := sizeCounter s - 1\<rparr>))"
  by (simp add: LookTable_erase_eq erase_loop_absent)

lemma LookTable_erase_head:
  "table s (bucket k) = Some a \<Longrightarrow> heap s a = Some n \<Longrightarrow> node_id n = k \<Longrightarrow>
   LookTable_erase k s =
     Some (Inr (s\<lparr>table := (table s)(bucket k := node_next n), heap := (heap s)(a := None)\<rparr>))"
  by (simp add: LookTable_erase_eq erase_loop_head)

lemma LookTable_erase_mid_chain:
  "chain s (table s (bucket k)) (a0 # pre @ b # post) \<Longrightarrow>
   \<forall>c \<in> set (a0 # pre). key_at s c \<noteq> Some k \<Longrightarrow> key_at s b = Some k \<Longrightarrow>
   LookTable_erase k s = None"
proof -
  assume ch: "chain s (table s (bucket k)) (a0 # pre @ b # post)"
    and pre: "\<forall>c \<in> set (a0 # pre). key_at s c \<noteq> Some k" and b: "key_at s b = Some k"
  from ch obtain n0 where head: "table s (bucket k) = Some a0" and n0: "heap s a0 = Some n0"
    and rest: "chain s (node_next n0) (pre @ b # post)"
    by (auto split: option.splits)
  from pre n0 have key0: "node_id n0 \<noteq> k" by (simp add: key_at_def)
  from pre have pre': "\<forall>c \<in> set pre. key_at s c \<noteq> Some k" by simp
  from erase_loop_mid_chain [OF head n0 key0 rest pre' b]
  show ?thesis by (simp add: LookTable_erase_eq head)
qed

lemmas test_states = erase_test_def insert_and_find_test_def shared_bucket2_def
  shared_bucket3_def LookTable_insert_eq LookTable_init_def bucket_values

lemma unat_minus_one_u64: "unat (- 1 :: u64) = 18446744073709551615"
  by (simp add: unsigned_minus_1_eq_mask mask_eq_exp_minus_1)

text \<open>
  C10. The counter is a \<open>uint64_t\<close>, updated modulo \<open>2 ^ 64\<close>. \<open>erase(k)\<close> on a newly
  constructed table finds the bucket empty, removes no node and runs \<open>fetch_sub(1)\<close>: the
  table is as before except for the counter, and \<open>size()\<close> is \<open>2 ^ 64 - 1\<close>.
\<close>

theorem erase_on_new_table_wraps:
  "LookTable_erase k (LookTable_init :: 'a LookTable) =
     Some (Inr (LookTable_init\<lparr>sizeCounter := 18446744073709551615\<rparr>)) \<and>
   size_after (LookTable_erase k (LookTable_init :: 'a LookTable)) = Some (Inr 18446744073709551615) \<and>
   and_then (LookTable_erase k (LookTable_init :: 'a LookTable))
     (\<lambda>s. Some (Inr (unat (LookTable_size s)))) = Some (Inr (2 ^ 64 - 1))"
  by (simp add: LookTable_erase_eq LookTable_init_def erase_loop_None size_after_def and_then_def
      LookTable_size_def unat_minus_one_u64)

text \<open>
  C1. After \<open>erase(k)\<close> on a present key, \<open>find(k)\<close> should be absent and \<open>size()\<close> one
  less. In the state of the test \<open>Erase\<close> (keys \<open>100\<close> and \<open>200\<close>, \<open>size() = 2\<close>),
  \<open>erase(100)\<close> unlinks the node, so \<open>find(100)\<close> is absent and \<open>find(200)\<close> still
  yields \<open>43\<close>, but it returns before \<open>fetch_sub\<close>: \<open>size()\<close> is still \<open>2\<close>, not \<open>1\<close>.
\<close>

theorem erase_present_keeps_size:
  "LookTable_size erase_test = 2 \<and>
   find_value 100 erase_test = Some (Inr (Some 42)) \<and>
   size_after (LookTable_erase 100 erase_test) = Some (Inr 2) \<and>
   find_after 100 (LookTable_erase 100 erase_test) = Some (Inr None) \<and>
   find_after 200 (LookTable_erase 100 erase_test) = Some (Inr (Some 43))"
  by (simp add: test_states LookTable_erase_eq erase_loop_unfold size_after_def find_after_def
      and_then_def LookTable_size_def find_value_def LookTable_find_eq find_loop_unfold
      find_loop_None payload_def)

text \<open>
  C2. \<open>erase(k)\<close> on an absent key should leave \<open>size()\<close> and all entries unchanged. In
  the state of the test \<open>Insert and find\<close> (key \<open>123456\<close> only, \<open>size() = 1\<close>) the key
  \<open>200\<close> is absent; \<open>erase(200)\<close> leaves the nodes and bucket heads as they were, but
  runs \<open>fetch_sub(1)\<close>: \<open>size()\<close> is \<open>0\<close> while \<open>find(123456)\<close> still yields \<open>42\<close>.
\<close>

theorem erase_absent_decrements:
  "find_value 200 insert_and_find_test = Some (Inr None) \<and>
   LookTable_size insert_and_find_test = 1 \<and>
   LookTable_erase 200 insert_and_find_test = Some (Inr (insert_and_find_test\<lparr>sizeCounter := 0\<rparr>)) \<and>
   size_after (LookTable_erase 200 insert_and_find_test) = Some (Inr 0) \<and>
   find_after 123456 (LookTable_erase 200 insert_and_find_test) = Some (Inr (Some 42))"
  by (simp add: test_states LookTable_erase_eq erase_loop_None size_after_def find_after_def
      and_then_def LookTable_size_def find_value_def LookTable_find_eq find_loop_unfold
      find_loop_None payload_def)

text \<open>
  C3. A node matching the key mid-chain should be unlinked through its predecessor's
  \<open>next\<close>. The keys \<open>7\<close>, \<open>201856\<close>, \<open>403705\<close>, inserted in this order, form the chain
  \<open>48, 32, 16\<close> of one bucket, with \<open>201856\<close> at node \<open>32\<close> between the head \<open>48\<close>
  and node \<open>16\<close>. \<open>erase(201856)\<close> compare-and-swaps the bucket head against node
  \<open>32\<close>, which fails since the head is \<open>48\<close>; no link of node \<open>48\<close> is written, and
  the call does not return.
\<close>

theorem erase_mid_chain_spins:
  "chain shared_bucket3 (table shared_bucket3 (bucket 201856)) [48, 32, 16] \<and>
   key_at shared_bucket3 48 = Some 403705 \<and>
   key_at shared_bucket3 32 = Some 201856 \<and>
   compare_exchange (table shared_bucket3 (bucket 201856)) (Some 32) (Some 16) = (False, Some 48, Some 48) \<and>
   LookTable_erase 201856 shared_bucket3 = None"
proof -
  have ch: "chain shared_bucket3 (table shared_bucket3 (bucket 201856)) (48 # [] @ 32 # [16])"
    by (simp add: test_states)
  have k3: "key_at shared_bucket3 48 = Some 403705" and k2: "key_at shared_bucket3 32 = Some 201856"
    by (simp_all add: test_states key_at_def)
  have "LookTable_erase 201856 shared_bucket3 = None"
    by (rule LookTable_erase_mid_chain [OF ch]) (simp_all add: k3 k2)
  moreover have "compare_exchange (table shared_bucket3 (bucket 201856)) (Some 32) (Some 16)
      = (False, Some 48, Some 48)"
    by (simp add: test_states compare_exchange_def)
  ultimately show ?thesis using ch k3 k2 by simp
qed

text \<open>
  C4. Every call should terminate in a single-threaded execution. After \<open>insert(7)\<close> and
  \<open>insert(201856)\<close> on a new table, both keys are found, the node of key \<open>7\<close> is
  behind the bucket head, and \<open>erase(7)\<close> does not return.
\<close>

theorem erase_does_not_return:
  "find_value 7 shared_bucket2 = Some (Inr (Some 7)) \<and>
   find_value 201856 shared_bucket2 = Some (Inr (Some 201856)) \<and>
   LookTable_erase 7 shared_bucket2 = None"
proof -
  have ch: "chain shared_bucket2 (table shared_bucket2 (bucket 7)) (32 # [] @ 16 # [])"
    by (simp add: test_states)
  have k: "key_at shared_bucket2 32 = Some 201856" "key_at shared_bucket2 16 = Some 7"
    by (simp_all add: test_states key_at_def)
  have "LookTable_erase 7 shared_bucket2 = None"
    by (rule LookTable_erase_mid_chain [OF ch]) (simp_all add: k)
  moreover have "find_value 7 shared_bucket2 = Some (Inr (Some 7))"
    "find_value 201856 shared_bucket2 = Some (Inr (Some 201856))"
    by (simp_all add: test_states find_value_def LookTable_find_eq find_loop_unfold payload_def)
  ultimately show ?thesis by simp
qed

text \<open>
  C5. A node should not be destroyed while a traversal may still reference it. A
  \<open>find(123456)\<close> that has loaded the bucket head holds the pointer \<open>16\<close>, and would
  find the key there. When \<open>erase(123456)\<close> runs to its end before the traversal goes on,
  the node \<open>16\<close> is already deleted when \<open>erase\<close> returns, and the traversal
  continuing from its pointer reads a node that is no longer live.
\<close>

theorem erase_frees_node_under_reader:
  "table insert_and_find_test (bucket 123456) = Some 16 \<and>
   find_loop 123456 (Some 16) insert_and_find_test = Some (Inr (Some 16)) \<and>
   and_then (LookTable_erase 123456 insert_and_find_test) (\<lambda>s. Some (Inr (heap s 16)))
     = Some (Inr None) \<and>
   and_then (LookTable_erase 123456 insert_and_find_test) (find_loop 123456 (Some 16))
     = Some (Inl Dangling)"
  by (simp add: test_states LookTable_erase_eq erase_loop_unfold and_then_def find_loop_unfold)



section \<open>find on a chain\<close>

lemma chain_live: "chain s p as \<Longrightarrow> a \<in> set as \<Longrightarrow> \<exists>n. heap s a = Some n"
  by (induction as arbitrary: p) (auto split: option.splits)

lemma chain_heap_cong:
  "\<forall>a \<in> set as. heap s' a = heap s a \<Longrightarrow> chain s' p as = chain s p as"
  by (induction as arbitrary: p) (auto split: option.splits)

lemma chain_insert:
  assumes "chain s (table s (bucket k)) as" and "a \<notin> set as"
  shows "chain (LookTable_insert a k p s) (table (LookTable_insert a k p s) (bucket k)) (a # as)"
proof -
  have "chain (LookTable_insert a k p s) (table s (bucket k)) as = chain s (table s (bucket k)) as"
    by (rule chain_heap_cong) (use assms(2) in \<open>auto simp: LookTable_insert_eq\<close>)
  with assms(1) show ?thesis by (simp add: LookTable_insert_eq)
qed

lemma LookTable_find_chain:
  "chain s (table s (bucket k)) as \<Longrightarrow>
   LookTable_find k s = Some (Inr (List.find (\<lambda>a. key_at s a = Some k) as, s))"
  by (simp add: LookTable_find_eq find_loop_chain)

lemma find_value_chain:
  assumes "chain s (table s (bucket k)) as"
  shows "find_value k s =
    Some (Inr (Option.bind (List.find (\<lambda>a. key_at s a = Some k) as) (payload s)))"
proof (cases "List.find (\<lambda>a. key_at s a = Some k) as")
  case None
  then show ?thesis by (simp add: find_value_def LookTable_find_chain [OF assms])
next
  case (Some a)
  then have "a \<in> set as" by (auto simp: find_Some_iff)
  from chain_live [OF assms this] obtain n where "heap s a = Some n" by auto
  with Some show ?thesis
    by (simp add: find_value_def LookTable_find_chain [OF assms] payload_def)
qed

text \<open>
  C7. When the bucket of \<open>k\<close> holds the chain \<open>as\<close>, \<open>find(k)\<close> returns the first
  node of \<open>as\<close>, in chain order, whose key is \<open>k\<close>, and reading through the pointer gives
  that node's payload; it returns the empty optional exactly when no node of the chain
  has key \<open>k\<close>. \<open>insert\<close> pushes at the head, so after inserting \<open>k\<close> with \<open>p1\<close> and
  again with \<open>p2\<close> (at fresh addresses) the chain starts with the second node and
  \<open>find(k)\<close> yields \<open>p2\<close>.
\<close>

theorem find_first_match:
  assumes "chain s (table s (bucket k)) as" and "a1 \<notin> set as" and "a2 \<notin> set as" and "a1 \<noteq> a2"
  shows "LookTable_find k s = Some (Inr (List.find (\<lambda>a. key_at s a = Some k) as, s)) \<and>
    find_value k s =
      Some (Inr (Option.bind (List.find (\<lambda>a. key_at s a = Some k) as) (payload s))) \<and>
    (LookTable_find k s = Some (Inr (None, s)) \<longleftrightarrow> (\<forall>a \<in> set as. key_at s a \<noteq> Some k)) \<and>
    chain (LookTable_insert a2 k p2 (LookTable_insert a1 k p1 s))
      (table (LookTable_insert a2 k p2 (LookTable_insert a1 k p1 s)) (bucket k)) (a2 # a1 # as) \<and>
    LookTable_find k (LookTable_insert a2 k p2 (LookTable_insert a1 k p1 s)) =
      Some (Inr (Some a2, LookTable_insert a2 k p2 (LookTable_insert a1 k p1 s))) \<and>
    find_value k (LookTable_insert a2 k p2 (LookTable_insert a1 k p1 s)) = Some (Inr (Some p2))"
proof -
  note found = LookTable_find_chain [OF assms(1)]
  have none: "LookTable_find k s = Some (Inr (None, s)) \<longleftrightarrow> (\<forall>a \<in> set as. key_at s a \<noteq> Some k)"
    by (auto simp: found find_None_iff)
  have "chain (LookTable_insert a1 k p1 s) (table (LookTable_insert a1 k p1 s) (bucket k)) (a1 # as)"
    by (rule chain_insert [OF assms(1,2)])
  moreover have "a2 \<notin> set (a1 # as)" using assms(3,4) by simp
  ultimately have twice: "chain (LookTable_insert a2 k p2 (LookTable_insert a1 k p1 s))
      (table (LookTable_insert a2 k p2 (LookTable_insert a1 k p1 s)) (bucket k)) (a2 # a1 # as)"
    by (rule chain_insert)
  have key: "key_at (LookTable_insert a2 k p2 s') a2 = Some k" for s' :: "'a LookTable"
    by (simp add: key_at_def LookTable_insert_eq)
  have "LookTable_find k (LookTable_insert a2 k p2 (LookTable_insert a1 k p1 s)) =
      Some (Inr (Some a2, LookTable_insert a2 k p2 (LookTable_insert a1 k p1 s)))"
    by (simp add: LookTable_find_chain [OF twice] key)
  with found none twice find_value_chain [OF assms(1)] show ?thesis
    by (simp add: insert_then_find)
qed

theorem find_first_match_witness:
  "chain shared_bucket2 (table shared_bucket2 (bucket 7)) [32, 16] \<and>
   (48 :: addr) \<notin> set [32, 16] \<and> (64 :: addr) \<notin> set [32, 16] \<and> (48 :: addr) \<noteq> 64 \<and>
   LookTable_find 7 shared_bucket2 = Some (Inr (Some 16, shared_bucket2)) \<and>
   find_value 7 shared_bucket2 = Some (Inr (Some 7)) \<and>
   find_value 7 (LookTable_insert 64 7 9 (LookTable_insert 48 7 8 shared_bucket2)) = Some (Inr (Some 9))"
proof -
  have ch: "chain shared_bucket2 (table shared_bucket2 (bucket 7)) [32, 16]"
    by (simp add: test_states)
  have k: "key_at shared_bucket2 32 = Some 201856" "key_at shared_bucket2 16 = Some 7"
    "payload shared_bucket2 16 = Some 7"
    by (simp_all add: test_states key_at_def payload_def)
  from find_first_match [OF ch, of 48 64 9 8] ch k show ?thesis by simp
qed

end
